theory Spec2Isabelle
  imports Complex_Main "HOL-Library.AList" "HOL-Library.Multiset"
begin

section \<open>Time-weighted averager (aggregator.py, Aggregator.average_viewers)\<close>

text \<open>
  A Python dict is an association list in insertion order; \<open>AList.update\<close> overwrites the
  value of a key that is present and appends a key that is not, as \<open>d[k] = v\<close> does.
  An entry (an Aggregatable API response) exposes its timestamp and its viewer counts,
  the items of the dict that \<open>viewercounts()\<close> returns.
\<close>

type_synonym 'k dict = "('k \<times> int) list"

record 'k entry =
  timestamp :: int
  viewercounts :: "'k dict"

datatype error = KeyError | ZeroDivisionError | DataError | DatabaseError

text \<open>\<open>res[name] += x\<close>: reading a missing key raises KeyError.\<close>

definition dict_iadd :: "'k \<Rightarrow> int \<Rightarrow> 'k dict \<Rightarrow> error + 'k dict" where
  "dict_iadd name x res =
     (case map_of res name of
        None \<Rightarrow> Inl KeyError
      | Some cur \<Rightarrow> Inr (AList.update name (cur + x) res))"

text \<open>The inner loop of lines 43-46, over the items of one entry; \<open>dt\<close> is
  \<open>entry.timestamp() - last_timestamp\<close>.\<close>

fun add_counts :: "'k dict \<Rightarrow> int \<Rightarrow> 'k dict \<Rightarrow> error + 'k dict" where
  "add_counts [] dt res = Inr res"
| "add_counts ((name, viewers) # items) dt res =
     (let res1 = (if map_of res name = None then AList.update name 0 res else res)
      in case dict_iadd name (viewers * dt) res1 of
           Inl e \<Rightarrow> Inl e
         | Inr res2 \<Rightarrow> add_counts items dt res2)"

text \<open>The outer loop of lines 42-47; it returns \<open>last_timestamp\<close> and \<open>res\<close>.\<close>

fun accumulate :: "'k entry list \<Rightarrow> int \<Rightarrow> 'k dict \<Rightarrow> error + (int \<times> 'k dict)" where
  "accumulate [] last_timestamp res = Inr (last_timestamp, res)"
| "accumulate (entry # entries) last_timestamp res =
     (case add_counts (viewercounts entry) (timestamp entry - last_timestamp) res of
        Inl e \<Rightarrow> Inl e
      | Inr res1 \<Rightarrow> accumulate entries (timestamp entry) res1)"

text \<open>The loop of lines 52-53, over the items of the last entry.\<close>

fun add_final :: "'k dict \<Rightarrow> int \<Rightarrow> 'k dict \<Rightarrow> error + 'k dict" where
  "add_final [] dt res = Inr res"
| "add_final ((name, viewers) # items) dt res =
     (case dict_iadd name (viewers * dt) res of
        Inl e \<Rightarrow> Inl e
      | Inr res1 \<Rightarrow> add_final items dt res1)"

text \<open>The loop of lines 55-56: \<open>res[name] //= (end - start)\<close> for every key. Python's
  \<open>//\<close> on integers is floor division, as \<open>div\<close> on \<open>int\<close> is; a zero divisor raises as
  soon as there is one key.\<close>

definition divide_all :: "'k dict \<Rightarrow> int \<Rightarrow> error + 'k dict" where
  "divide_all res d =
     (if res = [] then Inr res
      else if d = 0 then Inl ZeroDivisionError
      else Inr (map (\<lambda>(name, v). (name, v div d)) res))"

text \<open>
  Modelled from the spec: the scraper's models.py, which gives the entries their
  ordering, is not among the sources. The spec has the entries sorted ascending by
  timestamp with a stable sort, and Python's \<open>list.sort\<close> is stable, so \<open>entries.sort()\<close>
  is the stable insertion sort on the timestamp.
\<close>

definition entries_sort :: "'k entry list \<Rightarrow> 'k entry list" where
  "entries_sort entries = sort_key timestamp entries"

text \<open>
  \<open>average_viewers\<close> sorts the caller's list in place, so the model returns the list as
  the call leaves it together with the result (or the exception raised).
\<close>

definition average_viewers ::
  "'k entry list \<Rightarrow> int \<Rightarrow> int \<Rightarrow> 'k entry list \<times> (error + 'k dict)" where
  "average_viewers entries start end =
     (let entries1 = entries_sort entries
      in (entries1,
          case accumulate entries1 start [] of
            Inl e \<Rightarrow> Inl e
          | Inr (last_timestamp, res) \<Rightarrow>
              (case entries1 of
                 [] \<Rightarrow> Inr res
               | _ # _ \<Rightarrow>
                   (case add_final (viewercounts (last entries1)) (end - last_timestamp) res of
                      Inl e \<Rightarrow> Inl e
                    | Inr res1 \<Rightarrow> divide_all res1 (end - start)))))"


subsection \<open>The weighted sum in the words of the specification\<close>

text \<open>
  The count of an entity in an entry (zero when the entity is absent), the duration that
  entry \<open>i\<close> closes (from the previous entry's timestamp, or from \<open>start\<close> for the first
  entry), and the weighted sum over a non-empty sequence: one term per entry and the
  final term from the last entry to \<open>end\<close>.
\<close>

definition val :: "'k dict \<Rightarrow> 'k \<Rightarrow> int" where
  "val res k = (case map_of res k of None \<Rightarrow> 0 | Some v \<Rightarrow> v)"

definition count_in :: "'k entry \<Rightarrow> 'k \<Rightarrow> int" where
  "count_in e k = (case map_of (viewercounts e) k of None \<Rightarrow> 0 | Some v \<Rightarrow> v)"

definition present :: "'k entry \<Rightarrow> 'k \<Rightarrow> bool" where
  "present e k = (k \<in> fst ` set (viewercounts e))"

definition duration :: "'k entry list \<Rightarrow> int \<Rightarrow> nat \<Rightarrow> int" where
  "duration es start i =
     timestamp (es ! i) - (if i = 0 then start else timestamp (es ! (i - 1)))"

definition weightedSum :: "'k entry list \<Rightarrow> int \<Rightarrow> int \<Rightarrow> 'k \<Rightarrow> int" where
  "weightedSum es start end k =
     (\<Sum>i<length es. count_in (es ! i) k * duration es start i)
       + count_in (last es) k * (end - timestamp (last es))"

fun segments_sum :: "'k entry list \<Rightarrow> int \<Rightarrow> 'k \<Rightarrow> int" where
  "segments_sum [] prev k = 0"
| "segments_sum (e # es) prev k =
     count_in e k * (timestamp e - prev) + segments_sum es (timestamp e) k"

section \<open>Store adapters (dbinterface.py)\<close>

subsection \<open>PostgresManager\<close>

text \<open>
  The connection is modelled by the insert statements it has been given: the batches
  executed in the open transaction and the batches a commit has made durable, with the
  number of commits issued. Every batch is an
  \<open>INSERT INTO tablename VALUES ... ON CONFLICT DO NOTHING\<close>.

  The row classes of models.py are not among the sources; what the driver uses of them
  is taken as a parameter: the two constructors of rows (which may raise), \<open>to_row\<close>,
  and the epoch column of a stored row. So is what the schema of \<open>create_tables\<close> means
  for such rows: \<open>conflict table r x\<close> says that the rows \<open>r\<close> and \<open>x\<close> of \<open>table\<close> agree
  on its primary key or on a unique column, and \<open>rejected tables table rows\<close> says that
  the database, its tables being \<open>tables\<close>, raises on the insert of \<open>rows\<close> into \<open>table\<close>
  (a foreign key without its target, a missing value, a row of the wrong shape).
\<close>

record 'r postgres =
  stored :: "(string \<times> 'r list) list"
  uncommitted :: "(string \<times> 'r list) list"
  ncommits :: nat

record ('k, 'o, 'r) models =
  from_vcs :: "'k dict \<Rightarrow> int \<Rightarrow> error + 'o list"
  api_responses_to_games :: "'k entry list \<Rightarrow> error + 'o list"
  to_row :: "'o \<Rightarrow> 'r"
  epoch_of :: "'r \<Rightarrow> int"
  conflict :: "string \<Rightarrow> 'r \<Rightarrow> 'r \<Rightarrow> bool"
  rejected :: "(string \<Rightarrow> 'r list) \<Rightarrow> string \<Rightarrow> 'r list \<Rightarrow> bool"

definition tablenames :: "string set" where
  "tablenames = {''game'', ''twitch_game_vc'', ''twitch_stream'',
                 ''twitch_channel'', ''channel_affiliation'', ''esports_org''}"

definition commit :: "'r postgres \<Rightarrow> 'r postgres" where
  "commit man =
     man\<lparr>stored := stored man @ uncommitted man, uncommitted := [],
         ncommits := Suc (ncommits man)\<rparr>"

text \<open>\<open>INSERT ... ON CONFLICT DO NOTHING\<close> of a batch into a table: the rows are taken in
  order, and a row that conflicts with a row already in the table (one that was there
  before, or an earlier row of the batch) is dropped.\<close>

fun insert_ignore :: "('k, 'o, 'r) models \<Rightarrow> string \<Rightarrow> 'r list \<Rightarrow> 'r list \<Rightarrow> 'r list" where
  "insert_ignore M table existing [] = existing"
| "insert_ignore M table existing (r # rows) =
     insert_ignore M table
       (if list_ex (conflict M table r) existing then existing else existing @ [r]) rows"

fun replay ::
  "('k, 'o, 'r) models \<Rightarrow> string \<Rightarrow> (string \<times> 'r list) list \<Rightarrow> 'r list \<Rightarrow> 'r list" where
  "replay M table [] acc = acc"
| "replay M table ((t, rows) # batches) acc =
     replay M table batches (if t = table then insert_ignore M table acc rows else acc)"

text \<open>The rows of a table that a query on the connection sees: the table that the
  batches, durable and of the open transaction, have built in their order.\<close>

definition table_rows :: "('k, 'o, 'r) models \<Rightarrow> 'r postgres \<Rightarrow> string \<Rightarrow> 'r list" where
  "table_rows M man table = replay M table (stored man @ uncommitted man) []"

text \<open>\<open>SELECT COALESCE(MAX(epoch), 0) FROM table\<close>.\<close>

definition last_postgres_update ::
  "('k, 'o, 'r) models \<Rightarrow> 'r postgres \<Rightarrow> string \<Rightarrow> int" where
  "last_postgres_update M man table =
     (case map (epoch_of M) (table_rows M man table) of
        [] \<Rightarrow> 0
      | e # es \<Rightarrow> fold max es e)"

text \<open>\<open>store_rows\<close>. It catches nothing, so an exception that the database raises on
  \<open>execute_values\<close> leaves it, the statement having written nothing.\<close>

definition store_rows ::
  "('k, 'o, 'r) models \<Rightarrow> 'r postgres \<Rightarrow> 'o list \<Rightarrow> string \<Rightarrow> bool
     \<Rightarrow> error + ('r postgres \<times> bool)" where
  "store_rows M man rows tablename do_commit =
     (if rows = [] \<or> tablename \<notin> tablenames then Inr (man, False)
      else
        let rows1 = map (to_row M) rows
        in if rejected M (table_rows M man) tablename rows1 then Inl DatabaseError
           else
             let man1 = man\<lparr>uncommitted := uncommitted man @ [(tablename, rows1)]\<rparr>;
                 man2 = (if do_commit then commit man1 else man1)
             in Inr (man2, True))"

subsection \<open>MongoManager\<close>

text \<open>
  A database maps a collection name to its documents; a document of a snapshot
  collection is represented by the response object built from it. Python reads
  \<open>1 << 31 - 1\<close> as \<open>1 << (31 - 1)\<close>: subtraction binds tighter than the shift.
\<close>

type_synonym 'k mongo = "string \<Rightarrow> 'k entry list"

definition first_entry_after :: "'k mongo \<Rightarrow> int \<Rightarrow> string \<Rightarrow> int" where
  "first_entry_after mongo start collname =
     (let cursor = sort_key timestamp (filter (\<lambda>d. timestamp d > start) (mongo collname))
      in case cursor of
           d # _ \<Rightarrow> timestamp d
         | [] \<Rightarrow> push_bit (31 - 1) 1)"

definition docsbetween :: "'k mongo \<Rightarrow> int \<Rightarrow> int \<Rightarrow> string \<Rightarrow> 'k entry list" where
  "docsbetween mongo start end collname =
     sort_key timestamp
       (filter (\<lambda>d. start \<le> timestamp d \<and> timestamp d < end) (mongo collname))"

section \<open>Watermark resolver and aggregation driver (aggregator.py)\<close>

text \<open>\<open>int(epoch)\<close> truncates towards zero; the clock reading is a real number.\<close>

definition py_int :: "real \<Rightarrow> int" where
  "py_int x = (if 0 \<le> x then \<lfloor>x\<rfloor> else \<lceil>x\<rceil>)"

definition epoch_to_hour :: "real \<Rightarrow> int" where
  "epoch_to_hour epoch = (let seconds_in_hour = 3600
                          in py_int epoch div seconds_in_hour * seconds_in_hour)"

text \<open>\<open>_agg_ts\<close>; \<open>now\<close> is the reading of \<open>time.time()\<close>.\<close>

definition agg_ts ::
  "('k, 'o, 'r) models \<Rightarrow> 'r postgres \<Rightarrow> 'k mongo \<Rightarrow> real \<Rightarrow> string \<Rightarrow> string
     \<Rightarrow> int \<times> int \<times> int" where
  "agg_ts M man mongo now table_name collname =
     (let sechr = 3600;
          start = last_postgres_update M man table_name + sechr;
          lasthr = epoch_to_hour now;
          earliest_entry = first_entry_after mongo start collname;
          curhrstart = earliest_entry div sechr * sechr;
          curhrend = curhrstart + sechr
      in (curhrstart, curhrend, lasthr))"

text \<open>The body of the loop of \<open>agg_twitch_games\<close> (lines 85-94) for one bucket. An
  exception leaves the loop with the connection as it is.\<close>

definition agg_bucket ::
  "('k, 'o, 'r) models \<Rightarrow> 'r postgres \<Rightarrow> 'k mongo \<Rightarrow> string \<Rightarrow> int \<Rightarrow> int
     \<Rightarrow> 'r postgres \<times> (error + unit)" where
  "agg_bucket M man mongo coll curhrstart curhrend =
     (let docs = docsbetween mongo curhrstart curhrend coll;
          (apiresp, r) = average_viewers docs curhrstart curhrend
      in case r of
           Inl e \<Rightarrow> (man, Inl e)
         | Inr vcs0 \<Rightarrow>
             (case from_vcs M vcs0 curhrstart of
                Inl e \<Rightarrow> (man, Inl e)
              | Inr vcs \<Rightarrow>
                  if apiresp \<noteq> [] then
                    (case api_responses_to_games M apiresp of
                       Inl e \<Rightarrow> (man, Inl e)
                     | Inr games \<Rightarrow>
                         (case store_rows M man games ''game'' False of
                            Inl e \<Rightarrow> (man, Inl e)
                          | Inr (man1, _) \<Rightarrow>
                              (case store_rows M man1 vcs ''twitch_game_vc'' False of
                                 Inl e \<Rightarrow> (man1, Inl e)
                               | Inr (man2, _) \<Rightarrow> (man2, Inr ()))))
                  else (man, Inr ())))"

text \<open>The loop of lines 84-96. Besides the connection and the outcome it returns the
  buckets whose body was run, in order.\<close>

function agg_loop ::
  "('k, 'o, 'r) models \<Rightarrow> 'r postgres \<Rightarrow> 'k mongo \<Rightarrow> string \<Rightarrow> int \<Rightarrow> int \<Rightarrow> int
     \<Rightarrow> 'r postgres \<times> (int \<times> int) list \<times> (error + unit)" where
  "agg_loop M man mongo coll curhrstart curhrend lasthr =
     (if curhrend < lasthr then
        (case agg_bucket M man mongo coll curhrstart curhrend of
           (man1, Inl e) \<Rightarrow> (man1, [(curhrstart, curhrend)], Inl e)
         | (man1, Inr _) \<Rightarrow>
             (case agg_loop M man1 mongo coll (curhrstart + 3600) (curhrend + 3600) lasthr of
                (man2, buckets, r) \<Rightarrow> (man2, (curhrstart, curhrend) # buckets, r)))
      else (man, [], Inr ()))"
  by pat_completeness auto
termination
  by (relation "measure (\<lambda>(M, man, mongo, coll, curhrstart, curhrend, lasthr).
                           nat (lasthr - curhrend))") auto

declare agg_loop.simps [simp del]

definition agg_twitch_games ::
  "('k, 'o, 'r) models \<Rightarrow> 'r postgres \<Rightarrow> 'k mongo \<Rightarrow> string \<Rightarrow> real
     \<Rightarrow> 'r postgres \<times> (int \<times> int) list \<times> (error + unit)" where
  "agg_twitch_games M man mongo top_games now =
     (let (curhrstart, curhrend, lasthr) = agg_ts M man mongo now ''twitch_game_vc'' top_games
      in case agg_loop M man mongo top_games curhrstart curhrend lasthr of
           (man1, buckets, Inl e) \<Rightarrow> (man1, buckets, Inl e)
         | (man1, buckets, Inr _) \<Rightarrow> (commit man1, buckets, Inr ()))"

section \<open>Poll scheduler (scrapers.py, Scraper.scrape)\<close>

text \<open>
  One pass of the loop is driven by what the environment supplies: the clock reading at
  its start (line 41), the outcome of \<open>self.run()\<close>, the reading of line 44 (taken only
  when \<open>run\<close> returned) and the reading of line 51. An exception class stands for its
  subclasses as well. The loop has no exit of its own: run on a finite script of passes
  it ends either with the exception that left it, or with \<open>None\<close> when the script is
  used up and the loop is still going.
\<close>

datatype exn = ConnectionError | ServerSelectionTimeoutError | OtherException string

datatype event = Run | Debug_elapsed real | Warning string | Sleep real

record pass =
  t_start :: real
  outcome :: "exn option"
  t_done :: real
  t_end :: real

definition attempt :: "pass \<Rightarrow> exn + event list" where
  "attempt p =
     (case outcome p of
        None \<Rightarrow> Inr [Run, Debug_elapsed (t_done p - t_start p)]
      | Some ConnectionError \<Rightarrow> Inr [Run, Warning ''Twitch API Failed'']
      | Some ServerSelectionTimeoutError \<Rightarrow> Inr [Run, Warning ''Database Error'']
      | Some (OtherException x) \<Rightarrow> Inl (OtherException x))"

definition scrape_pass :: "real \<Rightarrow> pass \<Rightarrow> exn + event list" where
  "scrape_pass update_interval p =
     (let start_time = t_start p
      in case attempt p of
           Inl x \<Rightarrow> Inl x
         | Inr evs \<Rightarrow>
             let time_to_sleep = update_interval - (t_end p - start_time)
             in Inr (evs @ (if time_to_sleep > 0 then [Sleep time_to_sleep] else [])))"

fun scrape :: "real \<Rightarrow> pass list \<Rightarrow> event list \<times> exn option" where
  "scrape update_interval [] = ([], None)"
| "scrape update_interval (p # ps) =
     (case scrape_pass update_interval p of
        Inl x \<Rightarrow> ([Run], Some x)
      | Inr evs \<Rightarrow>
          (case scrape update_interval ps of (evs1, r) \<Rightarrow> (evs @ evs1, r)))"

text \<open>The sleeps of a trace, in order.\<close>

fun sleeps :: "event list \<Rightarrow> real list" where
  "sleeps [] = []"
| "sleeps (Sleep d # evs) = d # sleeps evs"
| "sleeps (_ # evs) = sleeps evs"

section \<open>Sample data\<close>

text \<open>The entries of the repository's test of the averager (tests/test_aggregator.py),
  a sequence out of order with one constant count, a small snapshot store with three
  hours of data, row constructors that succeed and row constructors that fail on the
  second hour, and a script of scheduler passes. The sample rows are triples
  \<open>(id, epoch, viewers)\<close>: rows of \<open>twitch_game_vc\<close> conflict on \<open>(id, epoch)\<close>, its primary
  key, rows of the other tables on \<open>id\<close>, and the database refuses a row of
  \<open>twitch_game_vc\<close> whose \<open>id\<close> is not that of a row of \<open>game\<close>, its foreign key.\<close>

definition test_entries :: "string entry list" where
  "test_entries =
     [\<lparr>timestamp = 1800, viewercounts = [(''game1'', 400), (''game2'', 1)]\<rparr>,
      \<lparr>timestamp = 1900, viewercounts = [(''game1'', 400), (''game2'', 1)]\<rparr>,
      \<lparr>timestamp = 2000, viewercounts = [(''game3'', 200)]\<rparr>]"

definition unsorted_entries :: "nat entry list" where
  "unsorted_entries =
     [\<lparr>timestamp = 900, viewercounts = [(7, 42)]\<rparr>,
      \<lparr>timestamp = 100, viewercounts = [(7, 42)]\<rparr>,
      \<lparr>timestamp = 500, viewercounts = [(7, 42)]\<rparr>]"

definition demo_models :: "(nat, nat \<times> int \<times> int, nat \<times> int \<times> int) models" where
  "demo_models =
     \<lparr>from_vcs = (\<lambda>vcs epoch. Inr (map (\<lambda>(k, v). (k, epoch, v)) vcs)),
      api_responses_to_games = (\<lambda>apiresp. Inr [(1, 0, 0)]),
      to_row = (\<lambda>x. x),
      epoch_of = (\<lambda>(k, epoch, v). epoch),
      conflict = (\<lambda>table r x.
        if table = ''twitch_game_vc'' then fst r = fst x \<and> fst (snd r) = fst (snd x)
        else fst r = fst x),
      rejected = (\<lambda>tables table rows.
        table = ''twitch_game_vc'' \<and>
        list_ex (\<lambda>r. \<not> list_ex (\<lambda>g. fst g = fst r) (tables ''game'')) rows)\<rparr>"

definition stocked_postgres :: "(nat \<times> int \<times> int) postgres" where
  "stocked_postgres =
     \<lparr>stored = [(''game'', [(1, 0, 0)]), (''twitch_game_vc'', [(1, 3600, 400)])],
      uncommitted = [], ncommits = 1\<rparr>"


definition demo_postgres :: "(nat \<times> int \<times> int) postgres" where
  "demo_postgres = \<lparr>stored = [], uncommitted = [], ncommits = 0\<rparr>"

definition demo_mongo :: "nat mongo" where
  "demo_mongo collname =
     (if collname = ''top_games'' then
        [\<lparr>timestamp = 3700, viewercounts = [(1, 400)]\<rparr>,
         \<lparr>timestamp = 7300, viewercounts = [(1, 200)]\<rparr>,
         \<lparr>timestamp = 11000, viewercounts = [(1, 100)]\<rparr>]
      else [])"

definition old_mongo :: "nat mongo" where
  "old_mongo collname = [\<lparr>timestamp = 1499999000, viewercounts = [(1, 400)]\<rparr>]"

definition demo_passes :: "pass list" where
  "demo_passes =
     [\<lparr>t_start = 0, outcome = None, t_done = 4, t_end = 5\<rparr>,
      \<lparr>t_start = 60, outcome = Some ConnectionError, t_done = 0, t_end = 130\<rparr>,
      \<lparr>t_start = 130, outcome = Some (OtherException ''KeyError''), t_done = 0, t_end = 0\<rparr>,
      \<lparr>t_start = 190, outcome = None, t_done = 191, t_end = 191\<rparr>]"

section \<open>Properties of the averager\<close>

subsection \<open>The loops\<close>

lemma dict_iadd_present:
  "map_of res name = Some cur \<Longrightarrow>
     dict_iadd name x res = Inr (AList.update name (cur + x) res)"
  by (simp add: dict_iadd_def)

lemma add_counts_ok:
  "distinct (map fst items) \<Longrightarrow>
   \<exists>res'. add_counts items dt res = Inr res' \<and>
     (distinct (map fst res) \<longrightarrow> distinct (map fst res')) \<and>
     (\<forall>k. map_of res' k =
        (case map_of items k of
           None \<Rightarrow> map_of res k
         | Some v \<Rightarrow> Some (val res k + v * dt)))"
proof (induction items arbitrary: res)
  case Nil
  then show ?case by simp
next
  case (Cons a items)
  obtain name viewers where a: "a = (name, viewers)" by (cases a)
  define res1 where "res1 = (if map_of res name = None then AList.update name 0 res else res)"
  have m1: "map_of res1 name = Some (val res name)"
    by (auto simp: res1_def val_def update_conv')
  have o1: "\<And>k. k \<noteq> name \<Longrightarrow> map_of res1 k = map_of res k"
    by (simp add: res1_def update_conv')
  have d1: "distinct (map fst res) \<Longrightarrow> distinct (map fst res1)"
    by (simp add: res1_def distinct_update)
  define res2 where "res2 = AList.update name (val res name + viewers * dt) res1"
  have i: "dict_iadd name (viewers * dt) res1 = Inr res2"
    using m1 by (simp add: dict_iadd_present res2_def)
  have step: "add_counts (a # items) dt res = add_counts items dt res2"
    using i by (simp add: a res1_def Let_def)
  from Cons.prems have dist: "distinct (map fst items)" and notin: "name \<notin> fst ` set items"
    by (auto simp: a)
  from Cons.IH [OF dist, of res2] obtain res' where
    r: "add_counts items dt res2 = Inr res'"
    and d: "distinct (map fst res2) \<longrightarrow> distinct (map fst res')"
    and m: "\<forall>k. map_of res' k =
        (case map_of items k of None \<Rightarrow> map_of res2 k | Some v \<Rightarrow> Some (val res2 k + v * dt))"
    by blast
  have none: "map_of items name = None"
    using notin by (simp add: map_of_eq_None_iff)
  have m2: "map_of res2 name = Some (val res name + viewers * dt)"
    by (simp add: res2_def update_conv')
  have o2: "\<And>k. k \<noteq> name \<Longrightarrow> map_of res2 k = map_of res k"
    by (simp add: res2_def update_conv' o1)
  have v2: "\<And>k. k \<noteq> name \<Longrightarrow> val res2 k = val res k"
    by (simp add: val_def o2)
  have "\<forall>k. map_of res' k =
        (case map_of (a # items) k of None \<Rightarrow> map_of res k | Some v \<Rightarrow> Some (val res k + v * dt))"
  proof
    fix k
    show "map_of res' k =
        (case map_of (a # items) k of None \<Rightarrow> map_of res k | Some v \<Rightarrow> Some (val res k + v * dt))"
    proof (cases "k = name")
      case True
      then show ?thesis using m none m2 by (simp add: a)
    next
      case False
      then show ?thesis using m o2 v2 by (simp add: a split: option.splits)
    qed
  qed
  moreover have "distinct (map fst res) \<longrightarrow> distinct (map fst res')"
    using d d1 by (simp add: res2_def distinct_update)
  ultimately show ?case using step r by simp
qed

lemma val_add_counts:
  assumes "\<forall>k. map_of res' k =
        (case map_of items k of None \<Rightarrow> map_of res k | Some v \<Rightarrow> Some (val res k + v * dt))"
  shows "val res' k = val res k + (case map_of items k of None \<Rightarrow> 0 | Some v \<Rightarrow> v) * dt"
  using assms by (simp add: val_def split: option.splits)

lemma present_map_of: "present e k \<longleftrightarrow> map_of (viewercounts e) k \<noteq> None"
  by (simp add: present_def map_of_eq_None_iff)

lemma accumulate_ok:
  "\<forall>e\<in>set es. distinct (map fst (viewercounts e)) \<Longrightarrow>
   \<exists>res'. accumulate es prev res =
             Inr (if es = [] then prev else timestamp (last es), res') \<and>
     (distinct (map fst res) \<longrightarrow> distinct (map fst res')) \<and>
     (\<forall>k. map_of res' k =
        (if map_of res k \<noteq> None \<or> (\<exists>e\<in>set es. present e k)
         then Some (val res k + segments_sum es prev k) else None))"
proof (induction es arbitrary: prev res)
  case Nil
  then show ?case by (auto simp: val_def)
next
  case (Cons e es)
  from Cons.prems have de: "distinct (map fst (viewercounts e))"
    and des: "\<forall>e\<in>set es. distinct (map fst (viewercounts e))" by auto
  from add_counts_ok [OF de, of "timestamp e - prev" res] obtain res1 where
    r1: "add_counts (viewercounts e) (timestamp e - prev) res = Inr res1"
    and d1: "distinct (map fst res) \<longrightarrow> distinct (map fst res1)"
    and m1: "\<forall>k. map_of res1 k =
        (case map_of (viewercounts e) k of None \<Rightarrow> map_of res k
         | Some v \<Rightarrow> Some (val res k + v * (timestamp e - prev)))"
    by blast
  from Cons.IH [OF des, of "timestamp e" res1] obtain res' where
    r: "accumulate es (timestamp e) res1 =
          Inr (if es = [] then timestamp e else timestamp (last es), res')"
    and d: "distinct (map fst res1) \<longrightarrow> distinct (map fst res')"
    and m: "\<forall>k. map_of res' k =
        (if map_of res1 k \<noteq> None \<or> (\<exists>e\<in>set es. present e k)
         then Some (val res1 k + segments_sum es (timestamp e) k) else None)"
    by blast
  have v1: "\<And>k. val res1 k = val res k + count_in e k * (timestamp e - prev)"
    using val_add_counts [OF m1] by (simp add: count_in_def)
  have n1: "\<And>k. map_of res1 k \<noteq> None \<longleftrightarrow> map_of res k \<noteq> None \<or> present e k"
    using m1 by (simp add: present_map_of split: option.splits)
  have "accumulate (e # es) prev res =
          Inr (if e # es = [] then prev else timestamp (last (e # es)), res')"
    using r1 r by simp
  moreover have "\<forall>k. map_of res' k =
        (if map_of res k \<noteq> None \<or> (\<exists>x\<in>set (e # es). present x k)
         then Some (val res k + segments_sum (e # es) prev k) else None)"
    using m v1 n1 by auto
  ultimately show ?case using d d1 by blast
qed

lemma add_final_ok:
  "distinct (map fst items) \<Longrightarrow> \<forall>k\<in>fst ` set items. map_of res k \<noteq> None \<Longrightarrow>
   \<exists>res'. add_final items dt res = Inr res' \<and>
     (distinct (map fst res) \<longrightarrow> distinct (map fst res')) \<and>
     (\<forall>k. map_of res' k =
        (case map_of res k of None \<Rightarrow> None
         | Some r \<Rightarrow> Some (r + (case map_of items k of None \<Rightarrow> 0 | Some v \<Rightarrow> v) * dt)))"
proof (induction items arbitrary: res)
  case Nil
  then show ?case by (simp split: option.splits)
next
  case (Cons a items)
  obtain name viewers where a: "a = (name, viewers)" by (cases a)
  from Cons.prems obtain cur where cur: "map_of res name = Some cur"
    by (auto simp: a)
  define res1 where "res1 = AList.update name (cur + viewers * dt) res"
  have i: "dict_iadd name (viewers * dt) res = Inr res1"
    using cur by (simp add: dict_iadd_present res1_def)
  have m1: "map_of res1 = (map_of res)(name \<mapsto> cur + viewers * dt)"
    by (simp add: res1_def update_conv')
  from Cons.prems have dist: "distinct (map fst items)" and notin: "name \<notin> fst ` set items"
    by (auto simp: a)
  have dom1: "\<forall>k\<in>fst ` set items. map_of res1 k \<noteq> None"
    using Cons.prems(2) by (simp add: m1)
  from Cons.IH [OF dist dom1] obtain res' where
    r: "add_final items dt res1 = Inr res'"
    and d: "distinct (map fst res1) \<longrightarrow> distinct (map fst res')"
    and m: "\<forall>k. map_of res' k =
        (case map_of res1 k of None \<Rightarrow> None
         | Some r \<Rightarrow> Some (r + (case map_of items k of None \<Rightarrow> 0 | Some v \<Rightarrow> v) * dt))"
    by blast
  have none: "map_of items name = None"
    using notin by (simp add: map_of_eq_None_iff)
  have "add_final (a # items) dt res = Inr res'"
    using i r by (simp add: a)
  moreover have "distinct (map fst res) \<longrightarrow> distinct (map fst res')"
    using d by (simp add: res1_def distinct_update)
  moreover have "\<forall>k. map_of res' k =
        (case map_of res k of None \<Rightarrow> None
         | Some r \<Rightarrow> Some (r + (case map_of (a # items) k of None \<Rightarrow> 0 | Some v \<Rightarrow> v) * dt))"
    using m none cur by (auto simp: a m1 split: option.splits)
  ultimately show ?case by blast
qed

lemma map_of_divide:
  "map_of (map (\<lambda>(name, v). (name, v div d)) res) k = map_option (\<lambda>v. v div d) (map_of res k)"
  by (induction res) auto

lemma keys_divide: "map fst (map (\<lambda>(name, v). (name, v div d)) res) = map fst res"
  by (induction res) auto

lemma segments_sum_index:
  "segments_sum es prev k = (\<Sum>i<length es. count_in (es ! i) k * duration es prev i)"
proof (induction es arbitrary: prev)
  case Nil
  then show ?case by simp
next
  case (Cons e es)
  have shift: "\<And>i. duration (e # es) prev (Suc i) = duration es (timestamp e) i"
    by (simp add: duration_def nth_Cons')
  have "(\<Sum>i<length (e # es). count_in ((e # es) ! i) k * duration (e # es) prev i)
      = count_in e k * duration (e # es) prev 0
        + (\<Sum>i<length es. count_in ((e # es) ! Suc i) k * duration (e # es) prev (Suc i))"
    unfolding length_Cons by (subst sum.lessThan_Suc_shift) simp
  also have "\<dots> = count_in e k * (timestamp e - prev)
        + (\<Sum>i<length es. count_in (es ! i) k * duration es (timestamp e) i)"
    by (simp add: shift) (simp add: duration_def)
  finally show ?case by (simp add: Cons.IH)
qed

lemma set_entries_sort: "set (entries_sort entries) = set entries"
  by (simp add: entries_sort_def)

lemma entries_sort_Nil: "entries_sort entries = [] \<longleftrightarrow> entries = []"
  by (metis set_entries_sort set_empty)

lemma average_viewers_nonempty:
  assumes "entries_sort entries = es" and "es \<noteq> []"
    and "accumulate es start [] = Inr (lt, res0)"
    and "add_final (viewercounts (last es)) (end - lt) res0 = Inr res1"
  shows "snd (average_viewers entries start end) = divide_all res1 (end - start)"
proof -
  obtain e es' where "es = e # es'" using assms(2) by (cases es) auto
  then show ?thesis
    using assms unfolding average_viewers_def Let_def
    by (simp del: last.simps)
qed

lemma accumulate_constant:
  "\<forall>e\<in>set es. viewercounts e = [(k, c)] \<Longrightarrow>
   accumulate es prev [(k, v)] =
     Inr (if es = [] then prev else timestamp (last es),
          [(k, v + c * ((if es = [] then prev else timestamp (last es)) - prev))])"
proof (induction es arbitrary: prev v)
  case Nil
  then show ?case by simp
next
  case (Cons e es)
  have step: "add_counts (viewercounts e) (timestamp e - prev) [(k, v)]
      = Inr [(k, v + c * (timestamp e - prev))]"
    using Cons.prems by (simp add: dict_iadd_def)
  have rest: "\<forall>e\<in>set es. viewercounts e = [(k, c)]" using Cons.prems by simp
  show ?case
    using Cons.IH [OF rest, of "timestamp e" "v + c * (timestamp e - prev)"] step
    by (simp add: algebra_simps)
qed

subsection \<open>The result of the averager\<close>

text \<open>
  C1. For integer timestamps and \<open>start < end\<close>, with every entry's viewer counts a dict
  (its keys are distinct), \<open>average_viewers\<close> raises nothing and returns a dict that maps
  exactly the entities present in some entry, each to the floor of its weighted sum
  divided by \<open>end - start\<close>. The weighted sum runs over the entries in the stable
  ascending order of their timestamps: the count in entry \<open>i\<close> times the duration from
  the previous timestamp (\<open>start\<close> for the first entry) to the timestamp of entry \<open>i\<close>,
  plus the count in the last entry times the duration from its timestamp to \<open>end\<close>.
  For no entries the result is the empty dict.
\<close>

theorem average_viewers_weighted:
  assumes dicts: "\<forall>e\<in>set entries. distinct (map fst (viewercounts e))"
    and window: "start < end"
  shows "\<exists>res. snd (average_viewers entries start end) = Inr res \<and>
      distinct (map fst res) \<and>
      (entries = [] \<longrightarrow> res = []) \<and>
      (\<forall>k. map_of res k =
         (if \<exists>e\<in>set entries. present e k
          then Some (weightedSum (entries_sort entries) start end k div (end - start))
          else None))"
proof (cases "entries = []")
  case True
  then show ?thesis
    by (simp add: average_viewers_def entries_sort_def)
next
  case False
  define es where "es = entries_sort entries"
  have ne: "es \<noteq> []" using False by (simp add: es_def entries_sort_Nil)
  have des: "\<forall>e\<in>set es. distinct (map fst (viewercounts e))"
    using dicts by (simp add: es_def set_entries_sort)
  from accumulate_ok [OF des, of start "[]"] ne obtain res0 where
    a: "accumulate es start [] = Inr (timestamp (last es), res0)"
    and d0: "distinct (map fst res0)"
    and m0: "\<forall>k. map_of res0 k =
        (if \<exists>e\<in>set es. present e k then Some (segments_sum es start k) else None)"
    by (auto simp: val_def)
  have lin: "last es \<in> set es" using ne by simp
  have dl: "distinct (map fst (viewercounts (last es)))" using des lin by blast
  have dom0: "\<forall>k\<in>fst ` set (viewercounts (last es)). map_of res0 k \<noteq> None"
    using m0 lin unfolding present_def by auto
  from add_final_ok [OF dl dom0, of "end - timestamp (last es)"] d0 obtain res1 where
    f: "add_final (viewercounts (last es)) (end - timestamp (last es)) res0 = Inr res1"
    and d1: "distinct (map fst res1)"
    and m1: "\<forall>k. map_of res1 k =
        (case map_of res0 k of None \<Rightarrow> None
         | Some r \<Rightarrow> Some (r + count_in (last es) k * (end - timestamp (last es))))"
    unfolding count_in_def by blast
  have m1': "\<And>k. map_of res1 k =
        (if \<exists>e\<in>set es. present e k then Some (weightedSum es start end k) else None)"
    using m0 m1 by (simp add: weightedSum_def segments_sum_index)
  define res where "res = (if res1 = [] then res1 else map (\<lambda>(name, v). (name, v div (end - start))) res1)"
  have dv: "divide_all res1 (end - start) = Inr res"
    using window by (simp add: divide_all_def res_def)
  have run: "snd (average_viewers entries start end) = Inr res"
    using average_viewers_nonempty [OF es_def [symmetric] ne a f] dv by simp
  have dr: "distinct (map fst res)"
    using d1 keys_divide [of "end - start" res1] unfolding res_def
    by (simp del: map_map)
  have mr: "\<And>k. map_of res k = map_option (\<lambda>v. v div (end - start)) (map_of res1 k)"
    by (simp add: res_def map_of_divide)
  have "\<forall>k. map_of res k =
         (if \<exists>e\<in>set entries. present e k
          then Some (weightedSum es start end k div (end - start))
          else None)"
    using mr m1' by (simp add: es_def set_entries_sort)
  then show ?thesis using run dr False unfolding es_def by blast
qed

theorem average_viewers_weighted_witness:
  "list_all (\<lambda>e. distinct (map fst (viewercounts e))) test_entries \<and> (1500::int) < 2000 \<and>
   (\<exists>res. snd (average_viewers test_entries 1500 2000) = Inr res \<and>
      map_of res ''game1'' = Some 320 \<and> map_of res ''game2'' = Some 0 \<and> map_of res ''game3'' = Some 40 \<and>
      map_of res ''game4'' = None)"
proof -
  have h1: "\<forall>e\<in>set test_entries. distinct (map fst (viewercounts e))"
    by (simp add: test_entries_def)
  have h2: "(1500::int) < 2000" by simp
  have h1': "list_all (\<lambda>e. distinct (map fst (viewercounts e))) test_entries"
    using h1 by (simp only: list_all_iff)
  have s: "entries_sort test_entries = test_entries"
    by (simp add: entries_sort_def test_entries_def)
  have p: "\<exists>e\<in>set test_entries. present e ''game1''" "\<exists>e\<in>set test_entries. present e ''game2''"
    "\<exists>e\<in>set test_entries. present e ''game3''" "\<not> (\<exists>e\<in>set test_entries. present e ''game4'')"
    by (simp_all add: test_entries_def present_def)
  have w: "weightedSum test_entries 1500 2000 ''game1'' = 160000"
    "weightedSum test_entries 1500 2000 ''game2'' = 400"
    "weightedSum test_entries 1500 2000 ''game3'' = 20000"
    by (simp_all add: weightedSum_def test_entries_def count_in_def duration_def
        lessThan_Suc eval_nat_numeral)
  from average_viewers_weighted [OF h1 h2] obtain res where
    r: "snd (average_viewers test_entries 1500 2000) = Inr res"
    and m: "\<forall>k. map_of res k =
         (if \<exists>e\<in>set test_entries. present e k
          then Some (weightedSum (entries_sort test_entries) 1500 2000 k div (2000 - 1500))
          else None)"
    by blast
  have "map_of res ''game1'' = Some 320" "map_of res ''game2'' = Some 0" "map_of res ''game3'' = Some 40"
    "map_of res ''game4'' = None"
    using m p by (simp_all add: s w)
  then show ?thesis using h1' h2 r by blast
qed

text \<open>
  C8. When every entry of a non-empty sequence holds the one entity \<open>k\<close> with the same
  count \<open>c\<close> and \<open>start < end\<close>, the result is exactly \<open>{k: c}\<close>, however many entries
  there are and wherever their timestamps lie (inside the window or not, in order or
  not).
\<close>

theorem average_viewers_constant:
  assumes ne: "entries \<noteq> []"
    and const: "\<forall>e\<in>set entries. viewercounts e = [(k, c)]"
    and window: "start < end"
  shows "snd (average_viewers entries start end) = Inr [(k, c)]"
proof -
  define es where "es = entries_sort entries"
  have "es \<noteq> []" using ne by (simp add: es_def entries_sort_Nil)
  then obtain e es' where es: "es = e # es'" by (cases es) auto
  have all: "\<forall>e\<in>set es. viewercounts e = [(k, c)]"
    using const by (simp add: es_def set_entries_sort)
  have first: "add_counts (viewercounts e) (timestamp e - start) [] = Inr [(k, c * (timestamp e - start))]"
    using all by (simp add: es dict_iadd_def)
  have rest: "\<forall>e\<in>set es'. viewercounts e = [(k, c)]" using all by (simp add: es)
  have acc: "accumulate es start [] =
      Inr (timestamp (last es), [(k, c * (timestamp (last es) - start))])"
    using accumulate_constant [OF rest, of "timestamp e" "c * (timestamp e - start)"] first
    by (simp add: es algebra_simps)
  have lst: "viewercounts (last es) = [(k, c)]"
    using all es by (metis last_in_set list.distinct(1))
  have fin: "add_final (viewercounts (last es)) (end - timestamp (last es))
               [(k, c * (timestamp (last es) - start))] = Inr [(k, c * (end - start))]"
    by (simp add: lst dict_iadd_def algebra_simps)
  have dv: "divide_all [(k, c * (end - start))] (end - start) = Inr [(k, c)]"
    using window by (simp add: divide_all_def)
  show ?thesis
    using average_viewers_nonempty [OF es_def [symmetric] \<open>es \<noteq> []\<close> acc fin] dv by simp
qed

theorem average_viewers_constant_witness:
  "unsorted_entries \<noteq> [] \<and> list_all (\<lambda>e. viewercounts e = [(7, 42)]) unsorted_entries \<and>
   (0::int) < 1000 \<and> snd (average_viewers unsorted_entries 0 1000) = Inr [(7, 42)]"
proof -
  have h1: "unsorted_entries \<noteq> []"
    and h2: "\<forall>e\<in>set unsorted_entries. viewercounts e = [(7, 42)]"
    by (simp_all add: unsorted_entries_def)
  have h3: "(0::int) < 1000" by simp
  have h2': "list_all (\<lambda>e. viewercounts e = [(7, 42)]) unsorted_entries"
    using h2 by (simp only: list_all_iff)
  from average_viewers_constant [OF h1 h2 h3] h1 h2' show ?thesis by simp
qed

text \<open>
  C9, as the code has it. \<open>average_viewers\<close> sorts the caller's list in place: after the
  call the list is the stable sort of the original by timestamp, so it holds the same
  elements in ascending order of timestamp, and it is unchanged when it was in ascending
  order already. The list is the only thing the call changes.
\<close>

theorem average_viewers_sorts_caller_list:
  "fst (average_viewers entries start end) = sort_key timestamp entries \<and>
   mset (fst (average_viewers entries start end)) = mset entries \<and>
   sorted (map timestamp (fst (average_viewers entries start end))) \<and>
   (sorted (map timestamp entries) \<longrightarrow> fst (average_viewers entries start end) = entries)"
  by (simp add: average_viewers_def entries_sort_def Let_def sort_key_id_if_sorted)

theorem average_viewers_sorts_caller_list_witness:
  "sorted (map timestamp test_entries) \<and>
   fst (average_viewers test_entries 1500 2000) = test_entries \<and>
   \<not> sorted (map timestamp unsorted_entries) \<and>
   mset (fst (average_viewers unsorted_entries 0 1000)) = mset unsorted_entries"
proof -
  have h: "sorted (map timestamp test_entries)"
    and n: "\<not> sorted (map timestamp unsorted_entries)"
    by (simp_all add: test_entries_def unsorted_entries_def)
  from average_viewers_sorts_caller_list [of test_entries 1500 2000] h
  have a: "fst (average_viewers test_entries 1500 2000) = test_entries" by blast
  from average_viewers_sorts_caller_list [of unsorted_entries 0 1000]
  have b: "mset (fst (average_viewers unsorted_entries 0 1000)) = mset unsorted_entries"
    by blast
  from a b h n show ?thesis by blast
qed

text \<open>C9, as stated, fails: a list that is not in ascending order of timestamp comes
  back reordered.\<close>

theorem average_viewers_reorders_counterexample:
  "fst (average_viewers unsorted_entries 0 1000) \<noteq> unsorted_entries"
  by (simp add: average_viewers_def entries_sort_def Let_def unsorted_entries_def)

section \<open>Properties of the store adapters\<close>

lemma insert_ignore_added:
  "\<exists>added. insert_ignore M table existing rows = existing @ added \<and>
     set added \<subseteq> set rows \<and>
     (\<forall>r\<in>set rows. r \<in> set added \<or> list_ex (conflict M table r) (existing @ added)) \<and>
     (\<forall>i<length added. \<not> list_ex (conflict M table (added ! i)) (existing @ take i added))"
proof (induction rows arbitrary: existing)
  case Nil
  then show ?case by simp
next
  case (Cons r rows)
  show ?case
  proof (cases "list_ex (conflict M table r) existing")
    case True
    from Cons.IH [of existing] obtain added where
      a: "insert_ignore M table existing rows = existing @ added"
      and b: "set added \<subseteq> set rows"
      and c: "\<forall>r\<in>set rows. r \<in> set added \<or> list_ex (conflict M table r) (existing @ added)"
      and d: "\<forall>i<length added. \<not> list_ex (conflict M table (added ! i)) (existing @ take i added)"
      by blast
    have "list_ex (conflict M table r) (existing @ added)"
      using True by (auto simp: list_ex_iff)
    then show ?thesis using True a b c d by auto
  next
    case False
    from Cons.IH [of "existing @ [r]"] obtain added where
      a: "insert_ignore M table (existing @ [r]) rows = (existing @ [r]) @ added"
      and b: "set added \<subseteq> set rows"
      and c: "\<forall>x\<in>set rows. x \<in> set added \<or>
                list_ex (conflict M table x) ((existing @ [r]) @ added)"
      and d: "\<forall>i<length added.
                \<not> list_ex (conflict M table (added ! i)) ((existing @ [r]) @ take i added)"
      by blast
    have 1: "insert_ignore M table existing (r # rows) = existing @ (r # added)"
      using False a by simp
    have 2: "set (r # added) \<subseteq> set (r # rows)" using b by auto
    have 3: "\<forall>x\<in>set (r # rows). x \<in> set (r # added) \<or>
                list_ex (conflict M table x) (existing @ (r # added))"
      using c by auto
    have 4: "\<forall>i<length (r # added).
                \<not> list_ex (conflict M table ((r # added) ! i)) (existing @ take i (r # added))"
    proof (intro allI impI)
      fix i assume i: "i < length (r # added)"
      show "\<not> list_ex (conflict M table ((r # added) ! i)) (existing @ take i (r # added))"
      proof (cases i)
        case 0
        then show ?thesis using False by simp
      next
        case (Suc j)
        then show ?thesis using d i by simp
      qed
    qed
    from 1 2 3 4 show ?thesis by blast
  qed
qed

lemma replay_append:
  "replay M table (bs @ cs) acc = replay M table cs (replay M table bs acc)"
  by (induction bs arbitrary: acc) auto

lemma table_rows_execute:
  "table_rows M (man\<lparr>uncommitted := uncommitted man @ [(t, rows)]\<rparr>) table =
     (if t = table then insert_ignore M table (table_rows M man table) rows
      else table_rows M man table)"
  by (simp add: table_rows_def replay_append append_assoc [symmetric] del: append_assoc)

lemma table_rows_commit: "table_rows M (commit man) table = table_rows M man table"
  by (simp add: table_rows_def commit_def)

text \<open>
  C10, as the code has it. \<open>store_rows\<close> returns False and leaves the connection as it
  was when there are no rows or the table name is not one of the six known names.
  Otherwise it issues the conflict-ignoring insert of the converted rows: when the
  database raises on it, the exception leaves \<open>store_rows\<close> and nothing is written; when
  it does not, \<open>store_rows\<close> returns True, the statement is in the open transaction
  (committed when a commit was asked for), the other tables are as they were, and the
  table has kept its rows and gained, in order, the rows of the batch that conflict with
  no row before them, every other row of the batch being dropped.
\<close>

theorem store_rows_guard:
  "(rows = [] \<or> tablename \<notin> tablenames \<longrightarrow>
      store_rows M man rows tablename do_commit = Inr (man, False)) \<and>
   (rows \<noteq> [] \<and> tablename \<in> tablenames \<and>
    rejected M (table_rows M man) tablename (map (to_row M) rows) \<longrightarrow>
      store_rows M man rows tablename do_commit = Inl DatabaseError) \<and>
   (rows \<noteq> [] \<and> tablename \<in> tablenames \<and>
    \<not> rejected M (table_rows M man) tablename (map (to_row M) rows) \<longrightarrow>
      (\<exists>man' added.
         store_rows M man rows tablename do_commit = Inr (man', True) \<and>
         man' = (if do_commit then commit else (\<lambda>m. m))
                  (man\<lparr>uncommitted := uncommitted man @ [(tablename, map (to_row M) rows)]\<rparr>) \<and>
         (\<forall>t. t \<noteq> tablename \<longrightarrow> table_rows M man' t = table_rows M man t) \<and>
         table_rows M man' tablename =
           insert_ignore M tablename (table_rows M man tablename) (map (to_row M) rows) \<and>
         table_rows M man' tablename = table_rows M man tablename @ added \<and>
         set added \<subseteq> set (map (to_row M) rows) \<and>
         (\<forall>r\<in>set (map (to_row M) rows).
            r \<in> set added \<or>
            list_ex (conflict M tablename r) (table_rows M man tablename @ added)) \<and>
         (\<forall>i<length added.
            \<not> list_ex (conflict M tablename (added ! i))
                (table_rows M man tablename @ take i added))))"
proof (intro conjI impI)
  assume "rows = [] \<or> tablename \<notin> tablenames"
  then show "store_rows M man rows tablename do_commit = Inr (man, False)"
    by (auto simp: store_rows_def)
next
  assume "rows \<noteq> [] \<and> tablename \<in> tablenames \<and>
    rejected M (table_rows M man) tablename (map (to_row M) rows)"
  then show "store_rows M man rows tablename do_commit = Inl DatabaseError"
    by (simp add: store_rows_def)
next
  assume a: "rows \<noteq> [] \<and> tablename \<in> tablenames \<and>
    \<not> rejected M (table_rows M man) tablename (map (to_row M) rows)"
  define man1 where
    "man1 = man\<lparr>uncommitted := uncommitted man @ [(tablename, map (to_row M) rows)]\<rparr>"
  define man' where "man' = (if do_commit then commit else (\<lambda>m. m)) man1"
  have run: "store_rows M man rows tablename do_commit = Inr (man', True)"
    using a by (simp add: store_rows_def man'_def man1_def Let_def)
  have t: "\<And>t. table_rows M man' t = table_rows M man1 t"
    by (simp add: man'_def table_rows_commit)
  have other: "\<forall>t. t \<noteq> tablename \<longrightarrow> table_rows M man' t = table_rows M man t"
    by (simp add: t man1_def table_rows_execute)
  have this_table: "table_rows M man' tablename =
      insert_ignore M tablename (table_rows M man tablename) (map (to_row M) rows)"
    by (simp add: t man1_def table_rows_execute)
  from insert_ignore_added [of M tablename "table_rows M man tablename" "map (to_row M) rows"]
  obtain added where
    "insert_ignore M tablename (table_rows M man tablename) (map (to_row M) rows)
       = table_rows M man tablename @ added"
    "set added \<subseteq> set (map (to_row M) rows)"
    "\<forall>r\<in>set (map (to_row M) rows).
        r \<in> set added \<or> list_ex (conflict M tablename r) (table_rows M man tablename @ added)"
    "\<forall>i<length added.
        \<not> list_ex (conflict M tablename (added ! i)) (table_rows M man tablename @ take i added)"
    by blast
  with run other this_table show "\<exists>man' added.
         store_rows M man rows tablename do_commit = Inr (man', True) \<and>
         man' = (if do_commit then commit else (\<lambda>m. m))
                  (man\<lparr>uncommitted := uncommitted man @ [(tablename, map (to_row M) rows)]\<rparr>) \<and>
         (\<forall>t. t \<noteq> tablename \<longrightarrow> table_rows M man' t = table_rows M man t) \<and>
         table_rows M man' tablename =
           insert_ignore M tablename (table_rows M man tablename) (map (to_row M) rows) \<and>
         table_rows M man' tablename = table_rows M man tablename @ added \<and>
         set added \<subseteq> set (map (to_row M) rows) \<and>
         (\<forall>r\<in>set (map (to_row M) rows).
            r \<in> set added \<or>
            list_ex (conflict M tablename r) (table_rows M man tablename @ added)) \<and>
         (\<forall>i<length added.
            \<not> list_ex (conflict M tablename (added ! i))
                (table_rows M man tablename @ take i added))"
    unfolding man'_def man1_def by (intro exI [of _ man'] exI [of _ added]) (simp add: man'_def man1_def)
qed

lemmas store_simps = store_rows_def tablenames_def table_rows_def commit_def list_ex_iff
  demo_models_def demo_postgres_def stocked_postgres_def Let_def

theorem store_rows_guard_witness:
  "store_rows demo_models stocked_postgres [] ''game'' False = Inr (stocked_postgres, False) \<and>
   ''games'' \<notin> tablenames \<and>
   store_rows demo_models stocked_postgres [(1, 3600, 400)] ''games'' False
     = Inr (stocked_postgres, False) \<and>
   ''twitch_game_vc'' \<in> tablenames \<and>
   rejected demo_models (table_rows demo_models stocked_postgres) ''twitch_game_vc''
     [(5, 7200, 10)] \<and>
   store_rows demo_models stocked_postgres [(5, 7200, 10)] ''twitch_game_vc'' False
     = Inl DatabaseError \<and>
   \<not> rejected demo_models (table_rows demo_models stocked_postgres) ''twitch_game_vc''
     [(1, 3600, 999), (1, 7200, 200)] \<and>
   store_rows demo_models stocked_postgres [(1, 3600, 999), (1, 7200, 200)] ''twitch_game_vc'' False
     = Inr (stocked_postgres\<lparr>uncommitted :=
              [(''twitch_game_vc'', [(1, 3600, 999), (1, 7200, 200)])]\<rparr>, True) \<and>
   table_rows demo_models
     (stocked_postgres\<lparr>uncommitted :=
        [(''twitch_game_vc'', [(1, 3600, 999), (1, 7200, 200)])]\<rparr>) ''twitch_game_vc''
     = [(1, 3600, 400), (1, 7200, 200)]"
proof -
  have a: "''games'' \<notin> tablenames" and b: "''twitch_game_vc'' \<in> tablenames"
    by (simp_all add: tablenames_def)
  have u: "uncommitted stocked_postgres = []" "to_row demo_models = (\<lambda>x. x)"
    by (simp_all add: stocked_postgres_def demo_models_def)
  have r1: "rejected demo_models (table_rows demo_models stocked_postgres) ''twitch_game_vc''
     [(5, 7200, 10)]"
    and r2: "\<not> rejected demo_models (table_rows demo_models stocked_postgres) ''twitch_game_vc''
     [(1, 3600, 999), (1, 7200, 200)]"
    by (simp_all add: store_simps)
  have t: "table_rows demo_models
     (stocked_postgres\<lparr>uncommitted :=
        [(''twitch_game_vc'', [(1, 3600, 999), (1, 7200, 200)])]\<rparr>) ''twitch_game_vc''
     = [(1, 3600, 400), (1, 7200, 200)]"
    by (simp add: store_simps)
  from store_rows_guard [of "[]" "''game''" demo_models stocked_postgres False]
  have 1: "store_rows demo_models stocked_postgres [] ''game'' False
             = Inr (stocked_postgres, False)"
    by simp
  from store_rows_guard [of "[(1, 3600, 400)]" "''games''" demo_models stocked_postgres False] a
  have 2: "store_rows demo_models stocked_postgres [(1, 3600, 400)] ''games'' False
             = Inr (stocked_postgres, False)"
    by simp
  from store_rows_guard [of "[(5, 7200, 10)]" "''twitch_game_vc''" demo_models stocked_postgres False]
    b r1 u
  have 3: "store_rows demo_models stocked_postgres [(5, 7200, 10)] ''twitch_game_vc'' False
             = Inl DatabaseError"
    by simp
  from store_rows_guard [of "[(1, 3600, 999), (1, 7200, 200)]" "''twitch_game_vc''"
      demo_models stocked_postgres False] b r2 u
  have 4: "store_rows demo_models stocked_postgres [(1, 3600, 999), (1, 7200, 200)]
             ''twitch_game_vc'' False
     = Inr (stocked_postgres\<lparr>uncommitted :=
              [(''twitch_game_vc'', [(1, 3600, 999), (1, 7200, 200)])]\<rparr>, True)"
    by auto
  from 1 2 3 4 a b r1 r2 t show ?thesis by blast
qed

text \<open>C10, as stated, fails: the rows are not empty and the table is a known one, yet
  the call does not return True. The row refers to game 5, the table \<open>game\<close> has no such
  row, the database raises on the foreign key and the exception leaves \<open>store_rows\<close>.\<close>

theorem store_rows_database_raises_counterexample:
  "[(5, 7200, 10)] \<noteq> ([] :: (nat \<times> int \<times> int) list) \<and>
   ''twitch_game_vc'' \<in> tablenames \<and>
   store_rows demo_models stocked_postgres [(5, 7200, 10)] ''twitch_game_vc'' False
     = Inl DatabaseError"
  by (simp add: store_simps)

lemma first_entry_after_none:
  "\<forall>d\<in>set (mongo collname). \<not> timestamp d > start \<Longrightarrow>
     first_entry_after mongo start collname = 2 ^ 30"
  by (simp add: first_entry_after_def)

text \<open>
  C2. With no document after \<open>start\<close>, \<open>first_entry_after\<close> returns \<open>1 << 31 - 1\<close>, which
  Python evaluates to \<open>2 ^ 30 = 1073741824\<close> (10 January 2004): not \<open>2 ^ 31 - 1\<close>, and an
  epoch before the very \<open>start\<close> it was asked about.
\<close>

theorem first_entry_after_sentinel_value:
  "first_entry_after old_mongo 1500000000 ''top_games'' = 1073741824 \<and>
   first_entry_after old_mongo 1500000000 ''top_games'' \<noteq> 2 ^ 31 - 1 \<and>
   first_entry_after old_mongo 1500000000 ''top_games'' < 1500000000"
  by (simp add: first_entry_after_def old_mongo_def)

section \<open>Properties of the watermark resolver and the driver\<close>

lemmas run_simps = agg_twitch_games_def agg_ts_def last_postgres_update_def table_rows_def
  first_entry_after_def epoch_to_hour_def py_int_def agg_loop.simps agg_bucket_def
  list_ex_iff
  docsbetween_def average_viewers_def entries_sort_def dict_iadd_def divide_all_def
  store_rows_def tablenames_def commit_def demo_models_def demo_postgres_def demo_mongo_def
  Let_def

lemma sorted_key_head_Min:
  assumes "sorted (map f (y # ys))"
  shows "f y = Min (f ` set (y # ys))"
proof -
  have "\<forall>x\<in>set ys. f y \<le> f x" using assms by auto
  then have "\<And>z. z \<in> f ` set (y # ys) \<Longrightarrow> f y \<le> z" by auto
  then show ?thesis
    by (intro Min_eqI [symmetric]) auto
qed

lemma first_entry_after_Min:
  assumes "\<exists>d\<in>set (mongo collname). timestamp d > start"
  shows "first_entry_after mongo start collname =
           Min (timestamp ` {d \<in> set (mongo collname). timestamp d > start})"
proof -
  define xs where "xs = filter (\<lambda>d. timestamp d > start) (mongo collname)"
  have ne: "sort_key timestamp xs \<noteq> []"
    using assms by (auto simp: xs_def filter_empty_conv dest!: arg_cong [where f = set])
  then obtain y ys where c: "sort_key timestamp xs = y # ys"
    by (cases "sort_key timestamp xs") auto
  have "sorted (map timestamp (y # ys))"
    using sorted_sort_key [of timestamp xs] by (simp only: c)
  then have "timestamp y = Min (timestamp ` set (y # ys))"
    by (rule sorted_key_head_Min)
  also have "set (y # ys) = set xs"
    using set_sort [of timestamp xs] by (simp only: c)
  finally show ?thesis
    by (simp add: first_entry_after_def xs_def [symmetric] c) (simp add: xs_def)
qed

lemma last_postgres_update_Max:
  "last_postgres_update M man table =
     (if table_rows M man table = [] then 0
      else Max (epoch_of M ` set (table_rows M man table)))"
proof (cases "table_rows M man table")
  case Nil
  then show ?thesis by (simp add: last_postgres_update_def)
next
  case (Cons r rs)
  have "fold max (map (epoch_of M) rs) (epoch_of M r)
      = Max (set (epoch_of M r # map (epoch_of M) rs))"
    by (rule Max.set_eq_fold [symmetric])
  then show ?thesis by (simp add: last_postgres_update_def Cons)
qed

text \<open>
  C4. The window that \<open>_agg_ts\<close> resolves starts at a multiple of 3600 and ends 3600
  later; its start is the hour floor of what \<open>first_entry_after\<close> returns for the last
  committed epoch plus 3600, the last committed epoch being 0 for a table without rows
  and the largest epoch otherwise; and when some snapshot lies strictly after that
  point, what \<open>first_entry_after\<close> returns is the earliest such timestamp.
\<close>

theorem agg_ts_window:
  assumes "agg_ts M man mongo now table_name collname = (curhrstart, curhrend, lasthr)"
  shows "curhrstart mod 3600 = 0 \<and> curhrend = curhrstart + 3600 \<and>
    curhrstart =
      first_entry_after mongo (last_postgres_update M man table_name + 3600) collname
        div 3600 * 3600 \<and>
    last_postgres_update M man table_name =
      (if table_rows M man table_name = [] then 0
       else Max (epoch_of M ` set (table_rows M man table_name))) \<and>
    ((\<exists>d\<in>set (mongo collname). timestamp d > last_postgres_update M man table_name + 3600) \<longrightarrow>
       first_entry_after mongo (last_postgres_update M man table_name + 3600) collname =
         Min (timestamp ` {d \<in> set (mongo collname).
                timestamp d > last_postgres_update M man table_name + 3600}))"
proof -
  have "curhrstart =
      first_entry_after mongo (last_postgres_update M man table_name + 3600) collname
        div 3600 * 3600" and "curhrend = curhrstart + 3600"
    using assms by (auto simp: agg_ts_def Let_def)
  then show ?thesis
    using first_entry_after_Min [of mongo collname "last_postgres_update M man table_name + 3600"]
      last_postgres_update_Max [of M man table_name]
    by simp
qed

lemma ts_demo: "agg_ts demo_models demo_postgres demo_mongo 15000 ''twitch_game_vc'' ''top_games''
   = (3600, 7200, 14400)"
  by (simp add: run_simps)

theorem agg_ts_window_witness:
  "agg_ts demo_models demo_postgres demo_mongo 15000 ''twitch_game_vc'' ''top_games''
     = (3600, 7200, 14400) \<and>
   (3600::int) mod 3600 = 0 \<and> (7200::int) = 3600 + 3600 \<and>
   table_rows demo_models demo_postgres ''twitch_game_vc'' = [] \<and>
   last_postgres_update demo_models demo_postgres ''twitch_game_vc'' = 0 \<and>
   (\<exists>d\<in>set (demo_mongo ''top_games''). timestamp d > 0 + 3600) \<and>
   first_entry_after demo_mongo (0 + 3600) ''top_games'' = 3700 \<and>
   (3600::int) = 3700 div 3600 * 3600"
proof -
  have rows: "table_rows demo_models demo_postgres ''twitch_game_vc'' = []"
    by (simp add: table_rows_def demo_postgres_def)
  have ex: "\<exists>d\<in>set (demo_mongo ''top_games''). timestamp d > 0 + 3600"
    by (simp add: demo_mongo_def)
  have f: "first_entry_after demo_mongo (0 + 3600) ''top_games'' = 3700"
    by (simp add: first_entry_after_def demo_mongo_def)
  from agg_ts_window [OF ts_demo] rows
  have "last_postgres_update demo_models demo_postgres ''twitch_game_vc'' = 0"
    by simp
  then show ?thesis using ts_demo rows ex f by simp
qed

subsection \<open>The bucket loop\<close>




lemma agg_loop_buckets:
  "agg_loop M man mongo coll s e l = (man1, bs, Inr u) \<Longrightarrow>
     bs = map (\<lambda>i. (s + 3600 * int i, e + 3600 * int i)) [0..<length bs] \<and>
     (\<forall>i. i < length bs \<longleftrightarrow> e + 3600 * int i < l)"
proof (induction M man mongo coll s e l arbitrary: man1 bs rule: agg_loop.induct)
  case (1 M man mongo coll s e l)
  show ?case
  proof (cases "e < l")
    case False
    then have "bs = []" using "1.prems" by (simp add: agg_loop.simps)
    moreover have "\<And>i::nat. \<not> e + 3600 * int i < l" using False by simp
    ultimately show ?thesis by simp
  next
    case True
    obtain ma rb where b: "agg_bucket M man mongo coll s e = (ma, rb)"
      by (cases "agg_bucket M man mongo coll s e")
    obtain mb bs' r' where rec: "agg_loop M ma mongo coll (s + 3600) (e + 3600) l = (mb, bs', r')"
      by (cases "agg_loop M ma mongo coll (s + 3600) (e + 3600) l")
    have rb: "rb = Inr ()" using "1.prems" True b
      by (cases rb) (simp_all add: agg_loop.simps [of M man])
    have res: "bs = (s, e) # bs'" "r' = Inr u" "man1 = mb"
      using "1.prems" True b rb rec by (simp_all add: agg_loop.simps [of M man])
    from "1.IH" [OF True b [symmetric] rb] rec res
    have ih1: "bs' = map (\<lambda>i. (s + 3600 + 3600 * int i, e + 3600 + 3600 * int i)) [0..<length bs']"
      and ih2: "\<forall>i. i < length bs' \<longleftrightarrow> e + 3600 + 3600 * int i < l"
      by auto
    have "map (\<lambda>i. (s + 3600 * int i, e + 3600 * int i)) [0..<length bs]
        = (s, e) # map (\<lambda>i. (s + 3600 * int (Suc i), e + 3600 * int (Suc i))) [0..<length bs']"
      unfolding res(1) by (simp add: upt_conv_Cons map_Suc_upt [symmetric] del: upt_Suc)
    also have "\<dots> = (s, e) # bs'"
      using ih1 by (simp add: algebra_simps)
    finally have A: "bs = map (\<lambda>i. (s + 3600 * int i, e + 3600 * int i)) [0..<length bs]"
      using res(1) by simp
    have B: "\<forall>i. i < length bs \<longleftrightarrow> e + 3600 * int i < l"
    proof
      fix i show "i < length bs \<longleftrightarrow> e + 3600 * int i < l"
      proof (cases i)
        case 0
        then show ?thesis using True res(1) by simp
      next
        case (Suc j)
        then show ?thesis using ih2 res(1) by (simp add: algebra_simps)
      qed
    qed
    from A B show ?thesis by blast
  qed
qed

lemma agg_loop_buckets_before:
  "agg_loop M man mongo coll s e l = (man1, bs, r) \<Longrightarrow> \<forall>b\<in>set bs. snd b < l \<and> snd b = fst b + (e - s)"
proof (induction M man mongo coll s e l arbitrary: man1 bs r rule: agg_loop.induct)
  case (1 M man mongo coll s e l)
  show ?case
  proof (cases "e < l")
    case False
    then show ?thesis using "1.prems" by (simp add: agg_loop.simps)
  next
    case True
    obtain ma rb where b: "agg_bucket M man mongo coll s e = (ma, rb)"
      by (cases "agg_bucket M man mongo coll s e")
    show ?thesis
    proof (cases rb)
      case (Inl err)
      then have "bs = [(s, e)]" using "1.prems" True b
        by (simp add: agg_loop.simps [of M man])
      then show ?thesis using True by simp
    next
      case (Inr u)
      obtain mb bs' r' where rec: "agg_loop M ma mongo coll (s + 3600) (e + 3600) l = (mb, bs', r')"
        by (cases "agg_loop M ma mongo coll (s + 3600) (e + 3600) l")
      have "bs = (s, e) # bs'" using "1.prems" True b Inr rec
        by (simp add: agg_loop.simps [of M man])
      with "1.IH" [OF True b [symmetric] Inr rec] True show ?thesis
        by auto
    qed
  qed
qed

lemma epoch_to_hour_le: "0 \<le> now \<Longrightarrow> real_of_int (epoch_to_hour now) \<le> now"
proof -
  assume a: "0 \<le> now"
  have "\<lfloor>now\<rfloor> div 3600 * 3600 \<le> \<lfloor>now\<rfloor>" by simp
  then have "real_of_int (\<lfloor>now\<rfloor> div 3600 * 3600) \<le> real_of_int \<lfloor>now\<rfloor>"
    by (simp only: of_int_le_iff)
  also have "\<dots> \<le> now" by simp
  finally show ?thesis using a by (simp add: epoch_to_hour_def py_int_def)
qed




lemma run_demo: "agg_twitch_games demo_models demo_postgres demo_mongo ''top_games'' 15000
   = (\<lparr>stored = [(''game'', [(1, 0, 0)]), (''twitch_game_vc'', [(1, 3600, 400)]),
                  (''game'', [(1, 0, 0)]), (''twitch_game_vc'', [(1, 7200, 200)])],
        uncommitted = [], ncommits = 1\<rparr>,
      [(3600, 7200), (7200, 10800)], Inr ())"
  by (simp add: run_simps)



text \<open>
  C3, as the code has it. The loop runs while \<open>curhrend < last\<close>, \<open>last\<close> being the current
  time floored to the hour (at most the current time, for a clock that is not negative):
  every bucket whose body runs is one hour long and ends strictly before \<open>last\<close>, and in
  a run that completes the buckets processed are, in order, exactly the hourly buckets
  from the resolved window on whose end is strictly less than \<open>last\<close>. The bucket ending
  at \<open>last\<close> and the current hour are not aggregated in that run.
\<close>

theorem agg_twitch_games_buckets:
  assumes ts: "agg_ts M man mongo now ''twitch_game_vc'' top_games = (s, e, l)"
    and run: "agg_twitch_games M man mongo top_games now = (man', bs, r)"
  shows "l = epoch_to_hour now \<and> (0 \<le> now \<longrightarrow> real_of_int l \<le> now) \<and>
    (\<forall>b\<in>set bs. snd b = fst b + 3600 \<and> snd b < l) \<and>
    (r = Inr () \<longrightarrow>
       bs = map (\<lambda>i. (s + 3600 * int i, e + 3600 * int i)) [0..<length bs] \<and>
       (\<forall>i. i < length bs \<longleftrightarrow> e + 3600 * int i < l))"
proof -
  have l: "l = epoch_to_hour now" and e: "e = s + 3600"
    using ts by (auto simp: agg_ts_def Let_def)
  obtain man1 r1 where loop: "agg_loop M man mongo top_games s e l = (man1, bs, r1)"
    and r: "r = (case r1 of Inl err \<Rightarrow> Inl err | Inr u \<Rightarrow> Inr ())"
    using run ts by (auto simp: agg_twitch_games_def split: prod.splits sum.splits)
  have A: "\<forall>b\<in>set bs. snd b = fst b + 3600 \<and> snd b < l"
    using agg_loop_buckets_before [OF loop] e by auto
  have B: "r = Inr () \<longrightarrow>
       bs = map (\<lambda>i. (s + 3600 * int i, e + 3600 * int i)) [0..<length bs] \<and>
       (\<forall>i. i < length bs \<longleftrightarrow> e + 3600 * int i < l)"
  proof
    assume "r = Inr ()"
    then obtain u where "r1 = Inr u" using r by (cases r1) auto
    with loop have "agg_loop M man mongo top_games s e l = (man1, bs, Inr u)" by simp
    then show "bs = map (\<lambda>i. (s + 3600 * int i, e + 3600 * int i)) [0..<length bs] \<and>
       (\<forall>i. i < length bs \<longleftrightarrow> e + 3600 * int i < l)"
      by (rule agg_loop_buckets)
  qed
  from l A B epoch_to_hour_le show ?thesis by blast
qed

theorem agg_twitch_games_buckets_witness:
  "agg_ts demo_models demo_postgres demo_mongo 15000 ''twitch_game_vc'' ''top_games''
     = (3600, 7200, 14400) \<and>
   fst (snd (agg_twitch_games demo_models demo_postgres demo_mongo ''top_games'' 15000))
     = [(3600, 7200), (7200, 10800)] \<and>
   snd (snd (agg_twitch_games demo_models demo_postgres demo_mongo ''top_games'' 15000))
     = Inr () \<and>
   (14400::int) = epoch_to_hour 15000 \<and> (7200::int) + 3600 * int 1 < 14400 \<and>
   \<not> (7200::int) + 3600 * int 2 < 14400"
proof -
  obtain man' bs r where
    run: "agg_twitch_games demo_models demo_postgres demo_mongo ''top_games'' 15000 = (man', bs, r)"
    and v: "bs = [(3600, 7200), (7200, 10800)]" "r = Inr ()"
    by (simp add: run_demo)
  from agg_twitch_games_buckets [OF ts_demo run]
  have "(14400::int) = epoch_to_hour 15000" by blast
  then show ?thesis using ts_demo run v by simp
qed

text \<open>C3, as stated, fails: at 15000 the floor is 14400, the bucket from 10800 to 14400
  ends at the floor and holds a snapshot, and the completed run has not processed it.\<close>

theorem agg_twitch_games_last_full_hour_counterexample:
  "(14400::int) \<le> epoch_to_hour 15000 \<and>
   agg_ts demo_models demo_postgres demo_mongo 15000 ''twitch_game_vc'' ''top_games''
     = (3600, 7200, 14400) \<and>
   snd (snd (agg_twitch_games demo_models demo_postgres demo_mongo ''top_games'' 15000))
     = Inr () \<and>
   (10800, 14400) \<notin>
     set (fst (snd (agg_twitch_games demo_models demo_postgres demo_mongo ''top_games'' 15000)))"
  by (simp add: run_demo ts_demo) (simp add: epoch_to_hour_def py_int_def)

section \<open>Properties of the poll scheduler\<close>

text \<open>
  C6. When \<open>run\<close> raises a connection error or a server-selection timeout, the pass
  logs a warning and the loop goes on with the next pass; when it raises anything else,
  the exception leaves the loop, whatever passes would have followed.
\<close>

theorem scrape_transient_or_fatal:
  "(outcome p = Some ConnectionError \<or> outcome p = Some ServerSelectionTimeoutError \<longrightarrow>
      (\<exists>w evs. scrape_pass update_interval p = Inr (Run # Warning w # evs) \<and>
         scrape update_interval (p # ps) =
           (Run # Warning w # evs @ fst (scrape update_interval ps),
            snd (scrape update_interval ps)))) \<and>
   (outcome p = Some (OtherException x) \<longrightarrow>
      scrape update_interval (p # ps) = ([Run], Some (OtherException x)))"
  by (auto simp: scrape_pass_def attempt_def Let_def split: prod.splits)

theorem scrape_transient_or_fatal_witness:
  "outcome (demo_passes ! 1) = Some ConnectionError \<and>
   outcome (demo_passes ! 2) = Some (OtherException ''KeyError'') \<and>
   scrape 60 (drop 2 demo_passes) = ([Run], Some (OtherException ''KeyError'')) \<and>
   scrape 60 (drop 1 demo_passes) =
     ([Run, Warning ''Twitch API Failed'', Run], Some (OtherException ''KeyError''))"
proof -
  have h1: "outcome (demo_passes ! 1) = Some ConnectionError"
    and h2: "outcome (demo_passes ! 2) = Some (OtherException ''KeyError'')"
    by (simp_all add: demo_passes_def)
  have d: "drop 2 demo_passes = demo_passes ! 2 # drop 3 demo_passes"
    "drop 1 demo_passes = demo_passes ! 1 # drop 2 demo_passes"
    by (simp_all add: demo_passes_def)
  have p1: "scrape_pass 60 (demo_passes ! 1) = Inr [Run, Warning ''Twitch API Failed'']"
    by (simp add: demo_passes_def scrape_pass_def attempt_def)
  from scrape_transient_or_fatal [of "demo_passes ! 2" 60 "drop 3 demo_passes" "''KeyError''"] h2
  have fatal: "scrape 60 (drop 2 demo_passes) = ([Run], Some (OtherException ''KeyError''))"
    by (simp only: d(1))
  from scrape_transient_or_fatal [of "demo_passes ! 1" 60 "drop 2 demo_passes"] h1
  have "scrape 60 (drop 1 demo_passes) =
     ([Run, Warning ''Twitch API Failed'', Run], Some (OtherException ''KeyError''))"
    unfolding d(2) [symmetric] using p1 fatal by auto
  then show ?thesis using h1 h2 fatal by simp
qed

text \<open>
  C7. In a pass that no exception leaves, the time slept is
  \<open>max 0 (update_interval - elapsed)\<close>, \<open>elapsed\<close> being the reading of the clock after the
  attempt minus the reading at the start of the pass: a single sleep of the remainder,
  as the last thing the pass does, when \<open>elapsed < update_interval\<close>, and no sleep at all
  otherwise, the next pass following at once.
\<close>

theorem scrape_sleep_remainder:
  assumes "\<forall>x. outcome p \<noteq> Some (OtherException x)"
  shows "\<exists>evs. scrape_pass update_interval p = Inr evs \<and>
     sum_list (sleeps evs) = max 0 (update_interval - (t_end p - t_start p)) \<and>
     scrape update_interval (p # ps) =
       (evs @ fst (scrape update_interval ps), snd (scrape update_interval ps)) \<and>
     (update_interval \<le> t_end p - t_start p \<longrightarrow> sleeps evs = []) \<and>
     (t_end p - t_start p < update_interval \<longrightarrow>
        (\<exists>pre. evs = pre @ [Sleep (update_interval - (t_end p - t_start p))] \<and>
               sleeps pre = []))"
proof (cases "outcome p")
  case None
  then show ?thesis
    by (auto simp: scrape_pass_def attempt_def Let_def split: prod.splits)
next
  case (Some x)
  with assms show ?thesis
    by (cases x) (auto simp: scrape_pass_def attempt_def Let_def split: prod.splits)
qed

theorem scrape_sleep_remainder_witness:
  "(\<forall>x. outcome (demo_passes ! 0) \<noteq> Some (OtherException x)) \<and>
   scrape_pass 60 (demo_passes ! 0) = Inr [Run, Debug_elapsed 4, Sleep 55] \<and>
   (\<forall>x. outcome (demo_passes ! 1) \<noteq> Some (OtherException x)) \<and>
   scrape_pass 60 (demo_passes ! 1) = Inr [Run, Warning ''Twitch API Failed''] \<and>
   sum_list (sleeps [Run, Debug_elapsed 4, Sleep 55]) = max 0 (60 - (5 - 0)) \<and>
   sum_list (sleeps [Run, Warning ''Twitch API Failed'']) = max 0 (60 - (130 - 60))"
proof -
  have h0: "\<forall>x. outcome (demo_passes ! 0) \<noteq> Some (OtherException x)"
    and h1: "\<forall>x. outcome (demo_passes ! 1) \<noteq> Some (OtherException x)"
    by (simp_all add: demo_passes_def)
  have e0: "scrape_pass 60 (demo_passes ! 0) = Inr [Run, Debug_elapsed 4, Sleep 55]"
    and e1: "scrape_pass 60 (demo_passes ! 1) = Inr [Run, Warning ''Twitch API Failed'']"
    by (simp_all add: demo_passes_def scrape_pass_def attempt_def)
  have t: "t_end (demo_passes ! 0) - t_start (demo_passes ! 0) = 5"
    "t_end (demo_passes ! 1) - t_start (demo_passes ! 1) = 70"
    by (simp_all add: demo_passes_def)
  from scrape_sleep_remainder [OF h0, of 60 "[]"] scrape_sleep_remainder [OF h1, of 60 "[]"]
  show ?thesis using h0 h1 e0 e1 t by simp
qed

end
